theory Spec2Isabelle
  imports Main
begin

section \<open>Strings, errors and the random source\<close>

text \<open>
  Python strings are modelled as \<open>string\<close> (lists of one-byte characters) and
  \<open>str.upper\<close> as the ASCII letter map: text outside ASCII, where \<open>str.upper\<close> can change
  the length of a string, is outside the model. The one-character strings of \<open>BASES\<close> are
  characters. \<open>InputRejected\<close> stands for the \<open>st.error\<close> and \<open>st.stop\<close> of the button
  block; the other two errors are the Python exceptions of the same name.
\<close>

datatype error = ValueError | IndexError | InputRejected

definition BASES :: "string" where
  "BASES = ''ATCG''"

definition upper_char :: "char \<Rightarrow> char" where
  "upper_char c =
     (case map_of (zip ''abcdefghijklmnopqrstuvwxyz'' ''ABCDEFGHIJKLMNOPQRSTUVWXYZ'') c of
        None \<Rightarrow> c
      | Some u \<Rightarrow> u)"

definition upper :: "string \<Rightarrow> string" where
  "upper s = map upper_char s"

text \<open>Decimal rendering of a number, as an f-string does for \<open>{i+1}\<close>.\<close>

function str_of_nat :: "nat \<Rightarrow> string" where
  "str_of_nat n =
     (if n < 10 then [''0123456789'' ! n]
      else str_of_nat (n div 10) @ [''0123456789'' ! (n mod 10)])"
  by pat_completeness auto
termination
  by (relation "measure (\<lambda>n. n)") auto

declare str_of_nat.simps [simp del]

text \<open>
  The process-wide generator of the \<open>random\<close> module is made explicit: a source is the
  infinite sequence of draws still to come, a draw being the value of one call of the
  generator's primitive, which the caller reduces to the range it asks for. Every library
  call consumes draws from the front of the source: \<open>random.choice\<close> one,
  \<open>random.choices\<close> one per element (it is only ever called on \<open>BASES\<close>, which is not
  empty), \<open>random.sample\<close> one per selected element.

  \<open>random.sample\<close> follows the library's pool scheme: the item at the drawn index of the
  pool is selected and the last item of the pool is moved into its place. For populations
  above the library's threshold (21 items when at most 5 are selected) the library selects
  by drawing an index of the population and drawing again on a collision instead; the
  model keeps the pool scheme there, which also selects items at pairwise different
  positions but reads other draws.
\<close>

type_synonym rng = "nat \<Rightarrow> nat"

definition shift :: "nat \<Rightarrow> rng \<Rightarrow> rng" where
  "shift k r = (\<lambda>i. r (i + k))"

definition choice :: "rng \<Rightarrow> 'a list \<Rightarrow> error + ('a \<times> rng)" where
  "choice r xs =
     (if xs = [] then Inl IndexError
      else Inr (xs ! (r 0 mod length xs), shift 1 r))"

fun choices :: "rng \<Rightarrow> 'a list \<Rightarrow> nat \<Rightarrow> 'a list" where
  "choices r xs 0 = []"
| "choices r xs (Suc k) = xs ! (r 0 mod length xs) # choices (shift 1 r) xs k"

fun sample_pool :: "rng \<Rightarrow> 'a list \<Rightarrow> nat \<Rightarrow> 'a list \<times> rng" where
  "sample_pool r pool 0 = ([], r)"
| "sample_pool r pool (Suc k) =
     (let j = r 0 mod length pool;
          (rest, r') = sample_pool (shift 1 r) (butlast (pool[j := last pool])) k
      in (pool ! j # rest, r'))"

definition sample :: "rng \<Rightarrow> 'a list \<Rightarrow> int \<Rightarrow> error + ('a list \<times> rng)" where
  "sample r population k =
     (if k < 0 \<or> int (length population) < k then Inl ValueError
      else Inr (sample_pool r population (nat k)))"

section \<open>itertools\<close>

text \<open>
  \<open>itertools.combinations(xs, k)\<close>: the length-\<open>k\<close> subsequences of \<open>xs\<close> in
  lexicographic order of positions. \<open>itertools.product(*xss)\<close> is
  \<^const>\<open>product_lists\<close>.
\<close>

fun combinations :: "'a list \<Rightarrow> nat \<Rightarrow> 'a list list" where
  "combinations xs 0 = [[]]"
| "combinations [] (Suc k) = []"
| "combinations (x # xs) (Suc k) =
     map ((#) x) (combinations xs k) @ combinations xs (Suc k)"

definition slice :: "'a list \<Rightarrow> nat \<Rightarrow> nat \<Rightarrow> 'a list" where
  "slice xs a b = take (b - a) (drop a xs)"

section \<open>core.py\<close>

definition single_mutations :: "string \<Rightarrow> string list" where
  "single_mutations seq =
     concat (map (\<lambda>(i, orig).
                    map (\<lambda>b. take i seq @ [b] @ drop (i + 1) seq)
                        (filter (\<lambda>b. b \<noteq> orig) BASES))
                 (enumerate 0 seq))"

definition double_mutations :: "string \<Rightarrow> string list" where
  "double_mutations seq =
     concat (map (\<lambda>ij.
                    let i = ij ! 0; j = ij ! 1; orig_i = seq ! i; orig_j = seq ! j in
                    concat (map (\<lambda>b_i.
                                   map (\<lambda>b_j. take i seq @ [b_i] @ slice seq (i + 1) j
                                                @ [b_j] @ drop (j + 1) seq)
                                       (filter (\<lambda>b_j. b_j \<noteq> orig_j) BASES))
                                (filter (\<lambda>b_i. b_i \<noteq> orig_i) BASES)))
                 (combinations [0..<length seq] 2))"

text \<open>
  The insertion-ordered dictionary \<open>seen\<close> of the sampling loop is the list of its keys in
  insertion order; storing an existing key leaves the order unchanged.
\<close>

definition od_store :: "'k \<Rightarrow> 'k list \<Rightarrow> 'k list" where
  "od_store k seen = (if k \<in> set seen then seen else seen @ [k])"

fun assign_random :: "rng \<Rightarrow> string \<Rightarrow> string \<Rightarrow> nat list \<Rightarrow> error + (string \<times> rng)" where
  "assign_random r seq new_seq [] = Inr (new_seq, r)"
| "assign_random r seq new_seq (p # ps) =
     (case choice r (filter (\<lambda>b. b \<noteq> seq ! p) BASES) of
        Inl e \<Rightarrow> Inl e
      | Inr (b, r') \<Rightarrow> assign_random r' seq (new_seq[p := b]) ps)"

text \<open>One pass through the body of the \<open>while\<close> loop: the string stored in \<open>seen\<close>.\<close>

definition triple_draw :: "rng \<Rightarrow> string \<Rightarrow> error + (string \<times> rng)" where
  "triple_draw r seq =
     (case sample r [0..<length seq] 3 of
        Inl e \<Rightarrow> Inl e
      | Inr (ps, r') \<Rightarrow> assign_random r' seq seq (sort ps))"

text \<open>
  The \<open>while\<close> loop may run forever; the first argument bounds the number of passes and
  \<open>None\<close> says that the loop was still running after that many.
\<close>

fun triple_loop ::
  "nat \<Rightarrow> rng \<Rightarrow> string \<Rightarrow> int \<Rightarrow> string list \<Rightarrow> (error + string list) option" where
  "triple_loop 0 r seq sample_size seen =
     (if int (length seen) < sample_size then None else Some (Inr seen))"
| "triple_loop (Suc fuel) r seq sample_size seen =
     (if int (length seen) < sample_size then
        (case triple_draw r seq of
           Inl e \<Rightarrow> Some (Inl e)
         | Inr (new_seq, r') \<Rightarrow> triple_loop fuel r' seq sample_size (od_store new_seq seen))
      else Some (Inr seen))"

definition triple_mutations_sampled ::
  "nat \<Rightarrow> rng \<Rightarrow> string \<Rightarrow> int \<Rightarrow> (error + string list) option" where
  "triple_mutations_sampled fuel r seq sample_size =
     (let upper_bound = int (length (combinations [0..<length seq] 3)) * (3 ^ 3)
      in triple_loop fuel r seq (min sample_size upper_bound) [])"

definition del1 :: "string \<Rightarrow> string list" where
  "del1 seq = map (\<lambda>i. take i seq @ drop (i + 1) seq) [0..<length seq]"

definition del2 :: "string \<Rightarrow> string list" where
  "del2 seq =
     map (\<lambda>ij. let i = ij ! 0; j = ij ! 1 in
                take i seq @ slice seq (i + 1) j @ drop (j + 1) seq)
         (combinations [0..<length seq] 2)"

record result =
  sequences :: "string list"
  core_only :: "string list"
  report :: "string list"

definition labels :: "string \<Rightarrow> nat \<Rightarrow> string list" where
  "labels prefix n = map (\<lambda>i. prefix @ ''_'' @ str_of_nat (i + 1)) [0..<n]"

text \<open>Steps 2 to 4 of \<open>process_sequence\<close>, once the core list is there.\<close>

definition finish_sequence ::
  "rng \<Rightarrow> string \<Rightarrow> string \<Rightarrow> string \<Rightarrow> string \<Rightarrow> bool \<Rightarrow> string \<Rightarrow> string list
     \<Rightarrow> error + result" where
  "finish_sequence r seq primer_f primer_r mut_type keep_length delete_fill_side core_list =
     (if (mut_type = ''del1'' \<or> mut_type = ''del2'') \<and> keep_length then
        (case core_list of
           [] \<Rightarrow> Inl IndexError
         | c0 # _ \<Rightarrow>
             let n_del = nat \<bar>int (length c0) - int (length seq)\<bar>;
                 fill_seq = choices r BASES n_del;
                 core_list' = (if delete_fill_side = ''5''
                               then map (\<lambda>c. fill_seq @ c) core_list
                               else map (\<lambda>c. c @ fill_seq) core_list);
                 full_list = map (\<lambda>c. primer_f @ c @ primer_r) core_list'
             in Inr \<lparr>sequences = full_list, core_only = core_list',
                     report = labels mut_type (length full_list)\<rparr>)
      else
        (let full_list = map (\<lambda>c. primer_f @ c @ primer_r) core_list
         in Inr \<lparr>sequences = full_list, core_only = core_list,
                 report = labels mut_type (length full_list)\<rparr>))"

definition process_sequence ::
  "nat \<Rightarrow> rng \<Rightarrow> string \<Rightarrow> string \<Rightarrow> string \<Rightarrow> string \<Rightarrow> bool \<Rightarrow> string \<Rightarrow> int
     \<Rightarrow> (error + result) option" where
  "process_sequence fuel r seq0 primer_f0 primer_r0 mut_type keep_length delete_fill_side
       sample_size =
     (let seq = upper seq0; primer_f = upper primer_f0; primer_r = upper primer_r0;
          fin = finish_sequence r seq primer_f primer_r mut_type keep_length delete_fill_side
      in if mut_type = ''single'' then Some (fin (single_mutations seq))
         else if mut_type = ''double'' then Some (fin (double_mutations seq))
         else if mut_type = ''triple'' then
           (case triple_mutations_sampled fuel r seq sample_size of
              None \<Rightarrow> None
            | Some (Inl e) \<Rightarrow> Some (Inl e)
            | Some (Inr core_list) \<Rightarrow> Some (fin core_list))
         else if mut_type = ''del1'' then Some (fin (del1 seq))
         else if mut_type = ''del2'' then Some (fin (del2 seq))
         else Some (Inl ValueError))"

section \<open>sl-connection.py\<close>

text \<open>
  The two exhaustive generators. The positions of a tuple come from
  \<open>range(len(seq))\<close>, so every assignment \<open>tmp[p] = new\<close> and every \<open>del new_seq[p]\<close>
  (highest position first) is in range.
\<close>

definition replace_k_mutations :: "string \<Rightarrow> nat \<Rightarrow> string list" where
  "replace_k_mutations seq k =
     concat (map (\<lambda>pos_tuple.
                    let choices = map (\<lambda>p. filter (\<lambda>b. b \<noteq> seq ! p) BASES) pos_tuple in
                    map (\<lambda>new_bases.
                           foldl (\<lambda>tmp (p, new). tmp[p := new]) seq (zip pos_tuple new_bases))
                        (product_lists choices))
                 (combinations [0..<length seq] k))"

definition delete_k_mutations :: "string \<Rightarrow> nat \<Rightarrow> string list" where
  "delete_k_mutations seq k =
     map (\<lambda>pos_tuple.
            foldl (\<lambda>new_seq p. take p new_seq @ drop (Suc p) new_seq) seq
                  (rev (sort pos_tuple)))
         (combinations [0..<length seq] k)"

text \<open>
  The block run by the button. \<open>entered\<close> is the content of the text area; \<open>count\<close> and
  \<open>sample_size\<close> come from number widgets (\<open>count\<close> from 1 to the length of the sequence,
  \<open>sample_size\<close> from 1 to 100000), hence naturals. An empty sequence makes the block show
  an error and stop. The call of \<open>process_sequence\<close> is made with the source as
  \<open>random.sample\<close> left it, and its three fields are then overwritten.
\<close>

definition run ::
  "rng \<Rightarrow> string \<Rightarrow> string \<Rightarrow> string \<Rightarrow> string \<Rightarrow> nat \<Rightarrow> nat \<Rightarrow> string
     \<Rightarrow> (error + result) option" where
  "run r entered primer_f primer_r mut_type count sample_size delete_fill_side =
     (let seq = upper (filter (\<lambda>c. c \<noteq> CHR 0x0A) entered) in
      if seq = [] then Some (Inl InputRejected)
      else
        let exhaustive = (if mut_type = ''replace'' then replace_k_mutations seq count
                          else delete_k_mutations seq count);
            drawn = (if length exhaustive > sample_size
                     then sample r exhaustive (int sample_size)
                     else Inr (exhaustive, r))
        in case drawn of
             Inl e \<Rightarrow> Some (Inl e)
           | Inr (core_list, r') \<Rightarrow>
               (case process_sequence 0 r' seq primer_f primer_r ''del1'' True
                       delete_fill_side (int sample_size) of
                  None \<Rightarrow> None
                | Some (Inl e) \<Rightarrow> Some (Inl e)
                | Some (Inr res) \<Rightarrow>
                    Some (Inr (res\<lparr>core_only := core_list,
                                    sequences := map (\<lambda>c. primer_f @ c @ primer_r) core_list,
                                    report := labels (mut_type @ ''_k'' @ str_of_nat count)
                                                     (length core_list)\<rparr>))))"

section \<open>Notions used in the statements\<close>

text \<open>The positions at which two strings differ, in ascending order.\<close>

definition diff_positions :: "'a list \<Rightarrow> 'a list \<Rightarrow> nat list" where
  "diff_positions xs ys = filter (\<lambda>i. xs ! i \<noteq> ys ! i) [0..<length xs]"

definition differs_at_exactly :: "nat \<Rightarrow> 'a list \<Rightarrow> 'a list \<Rightarrow> bool" where
  "differs_at_exactly k xs ys \<longleftrightarrow> length ys = length xs \<and> length (diff_positions xs ys) = k"

text \<open>A source whose every draw is 0, for concrete runs.\<close>

definition zero_source :: rng where
  "zero_source = (\<lambda>_. 0)"

text \<open>A source whose \<open>i\<close>-th draw is \<open>i\<close>.\<close>

definition ramp_source :: rng where
  "ramp_source = (\<lambda>i. i)"

text \<open>
  The bases a position may be changed to, the inner loop of \<open>_replace_k_mutations\<close>
  (assign the new bases at the positions of the tuple), and the bases chosen by the
  successive \<open>random.choice\<close> calls of one pass of the sampling loop.
\<close>

definition others :: "char \<Rightarrow> string" where
  "others c = filter (\<lambda>b. b \<noteq> c) BASES"

definition substitute :: "string \<Rightarrow> nat list \<Rightarrow> string \<Rightarrow> string" where
  "substitute seq pos new_bases = foldl (\<lambda>tmp (p, new). tmp[p := new]) seq (zip pos new_bases)"

fun picks :: "rng \<Rightarrow> string \<Rightarrow> nat list \<Rightarrow> string" where
  "picks r seq [] = []"
| "picks r seq (p # ps) =
     others (seq ! p) ! (r 0 mod length (others (seq ! p))) # picks (shift 1 r) seq ps"






section \<open>The single-substitution generator\<close>

lemma zip_upt_nth: "zip [0..<length xs] xs = map (\<lambda>i. (i, xs ! i)) [0..<length xs]"
  by (rule nth_equalityI) auto

lemma single_mutations_update:
  "single_mutations seq =
     concat (map (\<lambda>i. map (\<lambda>b. seq[i := b]) (filter (\<lambda>b. b \<noteq> seq ! i) BASES))
                 [0..<length seq])"
proof -
  have "enumerate 0 seq = map (\<lambda>i. (i, seq ! i)) [0..<length seq]"
    by (simp only: enumerate_eq_zip zip_upt_nth add_0)
  then have "single_mutations seq =
     concat (map (\<lambda>i. map (\<lambda>b. take i seq @ [b] @ drop (i + 1) seq)
                            (filter (\<lambda>b. b \<noteq> seq ! i) BASES))
                 [0..<length seq])"
    by (simp add: single_mutations_def comp_def)
  also have "\<dots> = concat (map (\<lambda>i. map (\<lambda>b. seq[i := b]) (filter (\<lambda>b. b \<noteq> seq ! i) BASES))
                 [0..<length seq])"
    by (intro arg_cong [where f = concat] map_cong refl) (simp add: upd_conv_take_nth_drop)
  finally show ?thesis .
qed

lemma others_length: "c \<in> set BASES \<Longrightarrow> length (filter (\<lambda>b. b \<noteq> c) BASES) = 3"
  by (auto simp: BASES_def)

lemma length_concat_const:
  "(\<And>x. x \<in> set xss \<Longrightarrow> length x = m) \<Longrightarrow> length (concat xss) = length xss * m"
  by (induction xss) auto

lemma nth_concat_const:
  "(\<And>x. x \<in> set xss \<Longrightarrow> length x = m) \<Longrightarrow> i < length xss \<Longrightarrow> j < m
    \<Longrightarrow> concat xss ! (i * m + j) = xss ! i ! j"
proof (induction xss arbitrary: i)
  case Nil
  then show ?case by simp
next
  case (Cons xs xss)
  show ?case
  proof (cases i)
    case 0
    with Cons.prems show ?thesis by (simp add: nth_append)
  next
    case (Suc i')
    with Cons.prems have "concat xss ! (i' * m + j) = xss ! i' ! j"
      by (intro Cons.IH) auto
    with Suc Cons.prems show ?thesis by (simp add: nth_append)
  qed
qed

lemma filter_eq_upt: "i < n \<Longrightarrow> filter (\<lambda>k. k = i) [0..<n] = [i]"
  by (induction n) (auto simp: less_Suc_eq)

lemma diff_positions_update:
  assumes "i < length seq" "b \<noteq> seq ! i"
  shows "diff_positions seq (seq[i := b]) = [i]"
proof -
  have "filter (\<lambda>k. seq ! k \<noteq> seq[i := b] ! k) [0..<length seq]
        = filter (\<lambda>k. k = i) [0..<length seq]"
    using assms by (intro filter_cong) (auto simp: nth_list_update)
  then show ?thesis using assms by (simp add: diff_positions_def filter_eq_upt)
qed

text \<open>
  C3. For a sequence over the alphabet, \<open>single_mutations\<close> returns three entries per
  position; each entry differs from the sequence at exactly one position and is not the
  sequence itself; entry \<open>3 * i + j\<close> replaces position \<open>i\<close> by the \<open>j\<close>-th symbol of
  \<open>BASES\<close> (A, T, C, G) other than the original one, so the order is position-major and
  alphabetical within a position.
\<close>

theorem single_mutations_spec:
  assumes "set seq \<subseteq> set BASES"
  shows "length (single_mutations seq) = 3 * length seq
       \<and> (\<forall>e \<in> set (single_mutations seq). differs_at_exactly 1 seq e \<and> e \<noteq> seq)
       \<and> (\<forall>i < length seq. \<forall>j < 3.
            single_mutations seq ! (3 * i + j)
              = seq[i := filter (\<lambda>b. b \<noteq> seq ! i) BASES ! j])"
proof (intro conjI ballI allI impI)
  let ?blocks = "map (\<lambda>i. map (\<lambda>b. seq[i := b]) (filter (\<lambda>b. b \<noteq> seq ! i) BASES))
                     [0..<length seq]"
  have others: "length (filter (\<lambda>b. b \<noteq> seq ! i) BASES) = 3" if "i < length seq" for i
  proof (rule others_length)
    from that have "seq ! i \<in> set seq" by simp
    with assms show "seq ! i \<in> set BASES" by blast
  qed
  have len: "length x = 3" if "x \<in> set ?blocks" for x
    using that others by auto
  show "length (single_mutations seq) = 3 * length seq"
    using length_concat_const [of ?blocks 3] len by (simp add: single_mutations_update)
  show "single_mutations seq ! (3 * i + j) = seq[i := filter (\<lambda>b. b \<noteq> seq ! i) BASES ! j]"
    if "i < length seq" "j < 3" for i j
  proof -
    have "concat ?blocks ! (i * 3 + j) = ?blocks ! i ! j"
      using that len by (intro nth_concat_const) auto
    then show ?thesis
      using that others [of i] by (simp add: single_mutations_update mult.commute)
  qed
  show "differs_at_exactly 1 seq e" if "e \<in> set (single_mutations seq)" for e
    using that
    by (auto simp: single_mutations_update differs_at_exactly_def diff_positions_update)
  show "e \<noteq> seq" if "e \<in> set (single_mutations seq)" for e
  proof -
    from that obtain i b where "i < length seq" "b \<noteq> seq ! i" "e = seq[i := b]"
      by (auto simp: single_mutations_update)
    then have "e ! i \<noteq> seq ! i" by simp
    then show ?thesis by auto
  qed
qed

theorem single_mutations_spec_witness:
  "set ''ATG'' \<subseteq> set BASES
   \<and> length (single_mutations ''ATG'') = 3 * length ''ATG''
   \<and> single_mutations ''ATG'' ! (3 * 1 + 2) = ''AGG''
   \<and> differs_at_exactly 1 ''ATG'' ''AGG''"
proof -
  have h: "set ''ATG'' \<subseteq> set BASES"
    by (simp add: BASES_def)
  have m: "''AGG'' \<in> set (single_mutations ''ATG'')"
    by code_simp
  have f: "''ATG''[1 := filter (\<lambda>b. b \<noteq> ''ATG'' ! 1) BASES ! 2] = ''AGG''"
    by code_simp
  note sm = single_mutations_spec [OF h]
  from sm have "length (single_mutations ''ATG'') = 3 * length ''ATG''"
    by (rule conjunct1)
  moreover from sm m have "differs_at_exactly 1 ''ATG'' ''AGG''"
    by blast
  moreover have "single_mutations ''ATG'' ! (3 * 1 + 2)
      = ''ATG''[1 := filter (\<lambda>b. b \<noteq> ''ATG'' ! 1) BASES ! 2]"
  proof -
    have "(1::nat) < length ''ATG''" and "(2::nat) < 3"
      by simp_all
    with sm show ?thesis by blast
  qed
  ultimately show ?thesis using h f by simp
qed

section \<open>Assembly and labels\<close>

lemma length_labels: "length (labels p n) = n"
  by (simp add: labels_def)

lemma nth_labels: "i < n \<Longrightarrow> labels p n ! i = p @ ''_'' @ str_of_nat (i + 1)"
  by (simp add: labels_def)

lemma finish_sequence_fields:
  assumes "finish_sequence r seq pf pr mt kl side cl = Inr res"
  shows "sequences res = map (\<lambda>c. pf @ c @ pr) (core_only res)"
    and "report res = labels mt (length (core_only res))"
  using assms
  by (auto simp: finish_sequence_def Let_def split: if_splits list.splits)

lemma process_sequence_finish:
  assumes "process_sequence fuel r seq pf pr mt kl side n = Some (Inr res)"
  shows "\<exists>cl. finish_sequence r (upper seq) (upper pf) (upper pr) mt kl side cl = Inr res"
  using assms
  by (auto simp: process_sequence_def Let_def split: if_splits option.splits sum.splits)

lemma process_sequence_fields:
  assumes "process_sequence fuel r seq pf pr mt kl side n = Some (Inr res)"
  shows "sequences res = map (\<lambda>c. upper pf @ c @ upper pr) (core_only res)"
    and "report res = labels mt (length (core_only res))"
  using process_sequence_finish [OF assms] finish_sequence_fields by blast+

lemma run_fields:
  assumes "run r entered pf pr mt k n side = Some (Inr res)"
  shows "sequences res = map (\<lambda>c. pf @ c @ pr) (core_only res)"
    and "report res = labels (mt @ ''_k'' @ str_of_nat k) (length (core_only res))"
  using assms
  by (auto simp: run_def Let_def split: if_splits option.splits sum.splits)

section \<open>Uppercasing\<close>

lemma upper_char_idem: "upper_char (upper_char c) = upper_char c"
  by (simp add: upper_char_def split: option.splits)

lemma upper_idem: "upper (upper s) = upper s"
  by (simp add: upper_def upper_char_idem)

lemma process_sequence_normalises:
  "process_sequence fuel r seq pf pr mt kl side n
     = process_sequence fuel r (upper seq) (upper pf) (upper pr) mt kl side n"
  by (simp add: process_sequence_def upper_idem)

section \<open>Combinations\<close>

lemma combinations_too_long: "length xs < k \<Longrightarrow> combinations xs k = []"
  by (induction xs k rule: combinations.induct) auto

lemma replace_k_too_long: "length seq < k \<Longrightarrow> replace_k_mutations seq k = []"
  by (simp add: replace_k_mutations_def combinations_too_long)

lemma delete_k_too_long: "length seq < k \<Longrightarrow> delete_k_mutations seq k = []"
  by (simp add: delete_k_mutations_def combinations_too_long)

section \<open>The button block returns\<close>

lemma process_sequence_del1_returns:
  assumes "seq \<noteq> []"
  shows "\<exists>res. process_sequence fuel r seq pf pr ''del1'' True side n = Some (Inr res)"
proof -
  from assms obtain c cs where "upper seq = c # cs"
    by (cases seq) (auto simp: upper_def)
  then have "del1 (upper seq) = cs # map (\<lambda>i. take i (c # cs) @ drop (i + 1) (c # cs)) [1..<Suc (length cs)]"
    by (simp add: del1_def upt_conv_Cons del: upt_Suc)
  then show ?thesis
    by (simp add: process_sequence_def finish_sequence_def Let_def)
qed

lemma run_eq:
  assumes "upper (filter (\<lambda>c. c \<noteq> CHR 0x0A) entered) = seq" "seq \<noteq> []"
    and "(if mt = ''replace'' then replace_k_mutations seq k else delete_k_mutations seq k) = ex"
    and "(if length ex > n then fst (sample_pool r ex n) else ex) = cl"
  shows "run r entered pf pr mt k n side
           = Some (Inr \<lparr>sequences = map (\<lambda>c. pf @ c @ pr) cl, core_only = cl,
                         report = labels (mt @ ''_k'' @ str_of_nat k) (length cl)\<rparr>)"
proof -
  define r' where "r' = (if length ex > n then snd (sample_pool r ex n) else r)"
  have d: "(if length ex > n then sample r ex (int n) else Inr (ex, r)) = Inr (cl, r')"
    using assms(4) by (auto simp: sample_def r'_def)
  obtain res where "process_sequence 0 r' seq pf pr ''del1'' True side (int n) = Some (Inr res)"
    using process_sequence_del1_returns [OF assms(2)] by blast
  with d assms(1,2,3) show ?thesis
    by (cases res) (simp add: run_def Let_def)
qed

section \<open>Sampling without replacement\<close>

lemma sample_pool_length: "length (fst (sample_pool r pool k)) = k"
  by (induction k arbitrary: r pool) (simp_all add: Let_def split_beta)

lemma sample_pool_source: "snd (sample_pool r pool k) = shift k r"
proof (induction k arbitrary: r pool)
  case 0
  show ?case by (simp add: shift_def)
next
  case (Suc k)
  have "shift k (shift 1 r) = shift (Suc k) r"
    by (simp add: shift_def fun_eq_iff)
  with Suc [of "shift 1 r"] show ?case
    by (simp add: Let_def split_beta)
qed








section \<open>Labels\<close>

text \<open>
  C9, as the code has it. The label at index \<open>i\<close> (counted from 0) of a result of
  \<open>process_sequence\<close> is the mode string it was called with, an underscore and \<open>i + 1\<close> in
  decimal; in the button block it is the mode string (replace or delete), \<open>_k\<close>, the count,
  an underscore and \<open>i + 1\<close>. For the sequence ATG in mode \<open>single\<close> with flanks X and Y the
  first full entry is XTTGY and the first label is \<open>single_1\<close>.
\<close>

theorem label_format:
  "(process_sequence fuel r seq primer_f primer_r mut_type keep_length side n = Some (Inr res)
      \<longrightarrow> (\<forall>i < length (report res). report res ! i = mut_type @ ''_'' @ str_of_nat (i + 1)))
   \<and> (run r' entered primer_f' primer_r' mut_type' count sample_size side' = Some (Inr res')
      \<longrightarrow> (\<forall>i < length (report res').
             report res' ! i = mut_type' @ ''_k'' @ str_of_nat count @ ''_'' @ str_of_nat (i + 1)))
   \<and> (\<exists>res''. process_sequence fuel r ''ATG'' ''X'' ''Y'' ''single'' keep_length side n
                 = Some (Inr res'')
          \<and> length (sequences res'') = 9
          \<and> sequences res'' ! 0 = ''XTTGY'' \<and> report res'' ! 0 = ''single_1'')"
proof (intro conjI impI)
  assume ps: "process_sequence fuel r seq primer_f primer_r mut_type keep_length side n
                = Some (Inr res)"
  show "\<forall>i < length (report res). report res ! i = mut_type @ ''_'' @ str_of_nat (i + 1)"
    using process_sequence_fields(2) [OF ps] by (simp add: length_labels nth_labels)
next
  assume run: "run r' entered primer_f' primer_r' mut_type' count sample_size side'
                 = Some (Inr res')"
  show "\<forall>i < length (report res').
          report res' ! i = mut_type' @ ''_k'' @ str_of_nat count @ ''_'' @ str_of_nat (i + 1)"
    using run_fields(2) [OF run] by (simp add: length_labels nth_labels)
next
  have u: "upper ''ATG'' = ''ATG''" "upper ''X'' = ''X''" "upper ''Y'' = ''Y''"
    by code_simp+
  have s: "single_mutations ''ATG''
             = [''TTG'', ''CTG'', ''GTG'', ''AAG'', ''ACG'', ''AGG'', ''ATA'', ''ATT'', ''ATC'']"
    by code_simp
  have l: "labels ''single'' (Suc k) ! 0 = ''single_1''" for k
    by (simp add: nth_labels str_of_nat.simps)
  show "\<exists>res''. process_sequence fuel r ''ATG'' ''X'' ''Y'' ''single'' keep_length side n
                 = Some (Inr res'')
          \<and> length (sequences res'') = 9
          \<and> sequences res'' ! 0 = ''XTTGY'' \<and> report res'' ! 0 = ''single_1''"
    using l by (simp add: process_sequence_def finish_sequence_def u s)
qed

theorem label_format_witness:
  "process_sequence 0 zero_source ''at'' ''x'' ''y'' ''del1'' False ''5'' 44424
     = Some (Inr \<lparr>sequences = [''XTY'', ''XAY''], core_only = [''T'', ''A''],
                   report = [''del1_1'', ''del1_2'']\<rparr>)
   \<and> run zero_source ''at'' ''x'' ''y'' ''delete'' 1 10 ''3''
     = Some (Inr \<lparr>sequences = [''xTy'', ''xAy''], core_only = [''T'', ''A''],
                   report = [''delete_k1_1'', ''delete_k1_2'']\<rparr>)
   \<and> [''del1_1'', ''del1_2''] ! 1 = ''del1'' @ ''_'' @ str_of_nat (1 + 1)
   \<and> [''delete_k1_1'', ''delete_k1_2''] ! 1
       = ''delete'' @ ''_k'' @ str_of_nat 1 @ ''_'' @ str_of_nat (1 + 1)"
proof -
  let ?res = "\<lparr>sequences = [''XTY'', ''XAY''], core_only = [''T'', ''A''],
                report = [''del1_1'', ''del1_2'']\<rparr>"
  let ?res' = "\<lparr>sequences = [''xTy'', ''xAy''], core_only = [''T'', ''A''],
                 report = [''delete_k1_1'', ''delete_k1_2'']\<rparr>"
  have p: "process_sequence 0 zero_source ''at'' ''x'' ''y'' ''del1'' False ''5'' 44424
             = Some (Inr ?res)"
    by code_simp
  have q: "run zero_source ''at'' ''x'' ''y'' ''delete'' 1 10 ''3'' = Some (Inr ?res')"
    by code_simp
  from label_format [where fuel = 0 and r = zero_source and seq = "''at''"
      and primer_f = "''x''" and primer_r = "''y''" and mut_type = "''del1''"
      and keep_length = False and side = "''5''" and n = 44424 and res = ?res
      and r' = zero_source and entered = "''at''" and primer_f' = "''x''" and primer_r' = "''y''"
      and mut_type' = "''delete''" and count = 1 and sample_size = 10 and side' = "''3''"
      and res' = ?res'] p q
  have a: "\<forall>i < length (report ?res). report ?res ! i = ''del1'' @ ''_'' @ str_of_nat (i + 1)"
    and b: "\<forall>i < length (report ?res').
              report ?res' ! i = ''delete'' @ ''_k'' @ str_of_nat 1 @ ''_'' @ str_of_nat (i + 1)"
    by blast+
  have "(1::nat) < length (report ?res)" and "(1::nat) < length (report ?res')"
    by simp_all
  with a b have "report ?res ! 1 = ''del1'' @ ''_'' @ str_of_nat (1 + 1)"
    and "report ?res' ! 1 = ''delete'' @ ''_k'' @ str_of_nat 1 @ ''_'' @ str_of_nat (1 + 1)"
    by blast+
  with p q show ?thesis
    by simp
qed

theorem label_counterexample:
  "process_sequence 0 zero_source ''ATG'' ''X'' ''Y'' ''single'' True ''5'' 44424
     = Some (Inr \<lparr>sequences = [''XTTGY'', ''XCTGY'', ''XGTGY'', ''XAAGY'', ''XACGY'', ''XAGGY'',
                                ''XATAY'', ''XATTY'', ''XATCY''],
                   core_only = [''TTG'', ''CTG'', ''GTG'', ''AAG'', ''ACG'', ''AGG'', ''ATA'',
                                ''ATT'', ''ATC''],
                   report = [''single_1'', ''single_2'', ''single_3'', ''single_4'',
                             ''single_5'', ''single_6'', ''single_7'', ''single_8'',
                             ''single_9'']\<rparr>)
   \<and> ''single_1'' \<noteq> ''single_sub_1''
   \<and> process_sequence 0 zero_source ''ATG'' ''X'' ''Y'' ''single_sub'' True ''5'' 44424
     = Some (Inl ValueError)"
  by code_simp

section \<open>Invalid input\<close>

lemma triple_mutations_sampled_empty:
  "triple_mutations_sampled fuel r [] n = Some (Inr [])"
  by (cases fuel) (simp_all add: triple_mutations_sampled_def numeral_3_eq_3)

text \<open>
  C5, as the code has it. \<open>process_sequence\<close> raises \<open>ValueError\<close> at once, whatever the
  other arguments, for a mode string other than its five modes. An empty sequence is
  refused by the button block only; \<open>process_sequence\<close> returns three empty lists for an
  empty sequence in the three substitution modes. With \<open>k\<close> above the length of the sequence
  the two exhaustive generators of the button block return the empty list.
\<close>

theorem invalid_input:
  "(mut_type \<notin> {''single'', ''double'', ''triple'', ''del1'', ''del2''}
      \<longrightarrow> process_sequence fuel r seq primer_f primer_r mut_type keep_length side n
            = Some (Inl ValueError))
   \<and> (upper (filter (\<lambda>c. c \<noteq> CHR 0x0A) entered) = []
      \<longrightarrow> run r' entered primer_f' primer_r' mut_type' count sample_size side'
            = Some (Inl InputRejected))
   \<and> (mut_type'' \<in> {''single'', ''double'', ''triple''}
      \<longrightarrow> process_sequence fuel r [] primer_f primer_r mut_type'' keep_length side n
            = Some (Inr \<lparr>sequences = [], core_only = [], report = []\<rparr>))
   \<and> (length seq' < k
      \<longrightarrow> replace_k_mutations seq' k = [] \<and> delete_k_mutations seq' k = [])"
proof (intro conjI impI)
  assume "mut_type \<notin> {''single'', ''double'', ''triple'', ''del1'', ''del2''}"
  then show "process_sequence fuel r seq primer_f primer_r mut_type keep_length side n
               = Some (Inl ValueError)"
    by (simp add: process_sequence_def)
next
  assume "upper (filter (\<lambda>c. c \<noteq> CHR 0x0A) entered) = []"
  then show "run r' entered primer_f' primer_r' mut_type' count sample_size side'
               = Some (Inl InputRejected)"
    by (simp add: run_def)
next
  assume "mut_type'' \<in> {''single'', ''double'', ''triple''}"
  then show "process_sequence fuel r [] primer_f primer_r mut_type'' keep_length side n
               = Some (Inr \<lparr>sequences = [], core_only = [], report = []\<rparr>)"
    by (auto simp: process_sequence_def finish_sequence_def upper_def single_mutations_def
          double_mutations_def triple_mutations_sampled_empty labels_def enumerate_eq_zip
          numeral_2_eq_2)
next
  assume "length seq' < k"
  then show "replace_k_mutations seq' k = []" and "delete_k_mutations seq' k = []"
    by (simp_all add: replace_k_too_long delete_k_too_long)
qed

theorem invalid_input_witness:
  "''unsupported'' \<notin> {''single'', ''double'', ''triple'', ''del1'', ''del2''}
   \<and> process_sequence 0 zero_source ''ATG'' ''X'' ''Y'' ''unsupported'' True ''5'' 44424
       = Some (Inl ValueError)
   \<and> upper (filter (\<lambda>c. c \<noteq> CHR 0x0A) []) = []
   \<and> run zero_source [] ''X'' ''Y'' ''replace'' 1 100 ''5'' = Some (Inl InputRejected)
   \<and> ''double'' \<in> {''single'', ''double'', ''triple''}
   \<and> process_sequence 0 zero_source [] ''X'' ''Y'' ''double'' True ''5'' 44424
       = Some (Inr \<lparr>sequences = [], core_only = [], report = []\<rparr>)
   \<and> length ''ATG'' < 5
   \<and> replace_k_mutations ''ATG'' 5 = [] \<and> delete_k_mutations ''ATG'' 5 = []"
proof -
  have h1: "''unsupported'' \<notin> {''single'', ''double'', ''triple'', ''del1'', ''del2''}"
    by simp
  have h2: "upper (filter (\<lambda>c. c \<noteq> CHR 0x0A) []) = []"
    by (simp add: upper_def)
  have h3: "''double'' \<in> {''single'', ''double'', ''triple''}"
    by simp
  have h4: "length ''ATG'' < 5"
    by simp
  note ii = invalid_input [where mut_type = "''unsupported''" and fuel = 0 and r = zero_source
      and seq = "''ATG''" and primer_f = "''X''" and primer_r = "''Y''" and keep_length = True
      and side = "''5''" and n = 44424 and entered = "[]" and r' = zero_source
      and primer_f' = "''X''" and primer_r' = "''Y''" and mut_type' = "''replace''"
      and count = 1 and sample_size = 100 and side' = "''5''" and mut_type'' = "''double''"
      and seq' = "''ATG''" and k = 5]
  note c1 = ii [THEN conjunct1, THEN mp, OF h1]
  note c2 = ii [THEN conjunct2, THEN conjunct1, THEN mp, OF h2]
  note c3 = ii [THEN conjunct2, THEN conjunct2, THEN conjunct1, THEN mp, OF h3]
  note c4 = ii [THEN conjunct2, THEN conjunct2, THEN conjunct2, THEN mp, OF h4]
  from h1 c1 h2 c2 h3 c3 h4 c4 [THEN conjunct1] c4 [THEN conjunct2] show ?thesis
    by (intro conjI)
qed

theorem invalid_input_counterexample:
  "process_sequence 0 zero_source [] [] [] ''single'' True ''5'' 44424
     = Some (Inr \<lparr>sequences = [], core_only = [], report = []\<rparr>)
   \<and> replace_k_mutations ''ATG'' 5 = []"
  by code_simp

section \<open>The exhaustive substitution generator\<close>


lemma others_length_ge: "3 \<le> length (others c)"
  by (auto simp: others_def BASES_def)




subsection \<open>Substituting at distinct positions\<close>


lemma substitute_Cons:
  "substitute seq (p # pos) (b # nb) = substitute (seq[p := b]) pos nb"
  by (simp add: substitute_def)



subsection \<open>Combinations of positions\<close>

lemma combinations_sorted:
  "sorted_wrt R xs \<Longrightarrow> ys \<in> set (combinations xs k)
     \<Longrightarrow> sorted_wrt R ys \<and> set ys \<subseteq> set xs \<and> length ys = k"
proof (induction xs k arbitrary: ys rule: combinations.induct)
  case (1 xs)
  then show ?case by simp
next
  case (2 k)
  then show ?case by simp
next
  case (3 x xs k)
  from "3.prems"(1) have hd: "\<forall>y \<in> set xs. R x y" and tl: "sorted_wrt R xs"
    by simp_all
  from "3.prems"(2) consider
      (taken) zs where "ys = x # zs" "zs \<in> set (combinations xs k)"
    | (skipped) "ys \<in> set (combinations xs (Suc k))"
    by auto
  then show ?case
  proof cases
    case taken
    from "3.IH"(1) [OF tl taken(2)] hd taken(1) show ?thesis
      by auto
  next
    case skipped
    from "3.IH"(2) [OF tl skipped] show ?thesis
      by auto
  qed
qed

lemma combinations_upt:
  assumes "ys \<in> set (combinations [0..<n] k)"
  shows "sorted_wrt (<) ys" and "\<forall>p \<in> set ys. p < n" and "length ys = k"
proof -
  have "sorted_wrt (<) [0..<n]"
    by simp
  from combinations_sorted [OF this assms] show "sorted_wrt (<) ys"
    and "\<forall>p \<in> set ys. p < n" and "length ys = k"
    by auto
qed

lemma length_combinations: "length (combinations xs k) = length xs choose k"
  by (induction xs k rule: combinations.induct) simp_all




subsection \<open>What a variant looks like\<close>




subsection \<open>The exhaustive list has no repetition\<close>



subsection \<open>The exhaustive count\<close>










section \<open>Deletion modes and length compensation\<close>

lemma length_choices: "length (choices r xs k) = k"
  by (induction k arbitrary: r) simp_all

lemma del1_lengths: "c \<in> set (del1 seq) \<Longrightarrow> Suc (length c) = length seq"
  by (auto simp: del1_def)

lemma del2_lengths:
  assumes "c \<in> set (del2 seq)"
  shows "Suc (Suc (length c)) = length seq"
proof -
  from assms obtain ij where ij: "ij \<in> set (combinations [0..<length seq] 2)"
    and c: "c = (let i = ij ! 0; j = ij ! 1 in
                 take i seq @ slice seq (i + 1) j @ drop (j + 1) seq)"
    by (auto simp: del2_def)
  note props = combinations_upt [OF ij]
  from props(3) obtain i j where [simp]: "ij = [i, j]"
    by (auto simp: length_Suc_conv numeral_2_eq_2)
  from props(1,2) have "i < j" "j < length seq"
    by simp_all
  then show ?thesis
    by (simp add: c slice_def)
qed

lemma process_sequence_keep_length:
  assumes mode: "mut_type = ''del1'' \<or> mut_type = ''del2''"
    and ps: "process_sequence fuel r seq primer_f primer_r mut_type True side n
               = Some (Inr res)"
  shows "\<exists>fill. (\<forall>c \<in> set (core_only res). length c = length (upper seq))
           \<and> core_only res
               = map (\<lambda>c. if side = ''5'' then fill @ c else c @ fill)
                     (if mut_type = ''del1'' then del1 (upper seq) else del2 (upper seq))"
proof -
  let ?seq = "upper seq"
  let ?cl = "if mut_type = ''del1'' then del1 ?seq else del2 ?seq"
  let ?d = "if mut_type = ''del1'' then 1 else 2 :: nat"
  have len: "length c + ?d = length ?seq" if "c \<in> set ?cl" for c
    using that del1_lengths [of c ?seq] del2_lengths [of c ?seq]
    by (auto split: if_splits)
  from mode ps have fin: "finish_sequence r ?seq (upper primer_f) (upper primer_r) mut_type
                            True side ?cl = Inr res"
    by (auto simp: process_sequence_def Let_def split: if_splits)
  then obtain c0 cs where cl: "?cl = c0 # cs"
    using mode by (cases ?cl) (auto simp: finish_sequence_def)
  then have "c0 \<in> set ?cl" by simp
  from len [OF this] have nd: "nat \<bar>int (length c0) - int (length ?seq)\<bar> = ?d"
    by auto
  let ?fill = "choices r BASES ?d"
  from fin mode have core: "core_only res
      = map (\<lambda>c. if side = ''5'' then ?fill @ c else c @ ?fill) ?cl"
    by (simp only: cl finish_sequence_def Let_def list.case nd [unfolded cl]) auto
  have "length c = length ?seq" if "c \<in> set (core_only res)" for c
    using that len unfolding core by (auto simp: length_choices)
  with core show ?thesis
    by blast
qed

text \<open>
  C2. In the button block the padded lists of \<open>process_sequence\<close> are overwritten with the
  unpadded deletion variants: every core variant of a deletion run on ATG is one short.
  \<open>process_sequence\<close> on the same sequence pads its variants to length 3.
\<close>

theorem run_delete_not_padded:
  "run zero_source ''ATG'' [] [] ''delete'' 1 100 ''5''
     = Some (Inr \<lparr>sequences = [''TG'', ''AG'', ''AT''], core_only = [''TG'', ''AG'', ''AT''],
                   report = [''delete_k1_1'', ''delete_k1_2'', ''delete_k1_3'']\<rparr>)
   \<and> process_sequence 0 zero_source ''ATG'' [] [] ''del1'' True ''5'' 100
     = Some (Inr \<lparr>sequences = [''ATG'', ''AAG'', ''AAT''], core_only = [''ATG'', ''AAG'', ''AAT''],
                   report = [''del1_1'', ''del1_2'', ''del1_3'']\<rparr>)"
  by code_simp

section \<open>Case normalisation\<close>

text \<open>
  C6. \<open>process_sequence\<close> works on the uppercased sequence and flanks
  (\<open>process_sequence_normalises\<close>). The button block uppercases the sequence only and
  assembles the full sequences from the flanks as entered: the runs on atGc with aa/tt and
  on ATGC with AA/TT give different full sequences.
\<close>

theorem run_flanks_not_uppercased:
  "run zero_source ''atGc'' ''aa'' ''tt'' ''delete'' 3 100 ''5''
     = Some (Inr \<lparr>sequences = [''aaCtt'', ''aaGtt'', ''aaTtt'', ''aaAtt''],
                   core_only = [''C'', ''G'', ''T'', ''A''],
                   report = [''delete_k3_1'', ''delete_k3_2'', ''delete_k3_3'',
                             ''delete_k3_4'']\<rparr>)
   \<and> run zero_source ''ATGC'' ''AA'' ''TT'' ''delete'' 3 100 ''5''
     = Some (Inr \<lparr>sequences = [''AACTT'', ''AAGTT'', ''AATTT'', ''AAATT''],
                   core_only = [''C'', ''G'', ''T'', ''A''],
                   report = [''delete_k3_1'', ''delete_k3_2'', ''delete_k3_3'',
                             ''delete_k3_4'']\<rparr>)"
  by code_simp

section \<open>Determinism of the fixed modes\<close>

text \<open>
  C10. In the modes \<open>single\<close> and \<open>double\<close>, and in the modes \<open>del1\<close> and \<open>del2\<close> without
  length compensation, \<open>process_sequence\<close> returns a result, and it returns the same
  result for any two random sources (and any two bounds on the sampling loop).
\<close>

theorem fixed_modes_deterministic:
  assumes "mut_type = ''single'' \<or> mut_type = ''double''
           \<or> ((mut_type = ''del1'' \<or> mut_type = ''del2'') \<and> \<not> keep_length)"
  shows "\<exists>res. process_sequence fuel r seq primer_f primer_r mut_type keep_length side n
                  = Some (Inr res)
              \<and> process_sequence fuel' r' seq primer_f primer_r mut_type keep_length side n
                  = Some (Inr res)"
  using assms by (auto simp: process_sequence_def finish_sequence_def Let_def)

theorem fixed_modes_deterministic_witness:
  "(''del2'' = ''single'' \<or> ''del2'' = ''double''
      \<or> ((''del2'' = ''del1'' \<or> ''del2'' = ''del2'') \<and> \<not> False))
   \<and> process_sequence 0 zero_source ''atg'' ''x'' ''y'' ''del2'' False ''5'' 10
       = process_sequence 7 ramp_source ''atg'' ''x'' ''y'' ''del2'' False ''5'' 10
   \<and> process_sequence 0 zero_source ''atg'' ''x'' ''y'' ''del2'' False ''5'' 10
       = Some (Inr \<lparr>sequences = [''XGY'', ''XTY'', ''XAY''], core_only = [''G'', ''T'', ''A''],
                     report = [''del2_1'', ''del2_2'', ''del2_3'']\<rparr>)"
proof -
  have h: "''del2'' = ''single'' \<or> ''del2'' = ''double''
      \<or> ((''del2'' = ''del1'' \<or> ''del2'' = ''del2'') \<and> \<not> False)"
    by simp
  have e: "process_sequence 0 zero_source ''atg'' ''x'' ''y'' ''del2'' False ''5'' 10
       = Some (Inr \<lparr>sequences = [''XGY'', ''XTY'', ''XAY''], core_only = [''G'', ''T'', ''A''],
                     report = [''del2_1'', ''del2_2'', ''del2_3'']\<rparr>)"
    by code_simp
  from fixed_modes_deterministic [OF h, of 0 zero_source "''atg''" "''x''" "''y''" "''5''" 10
      7 ramp_source]
  have "process_sequence 0 zero_source ''atg'' ''x'' ''y'' ''del2'' False ''5'' 10
       = process_sequence 7 ramp_source ''atg'' ''x'' ''y'' ''del2'' False ''5'' 10"
    by (elim exE conjE) (simp only:)
  with h e show ?thesis
    by (intro conjI)
qed

section \<open>The assembly invariant\<close>

lemma del1_nonempty: "seq \<noteq> [] \<Longrightarrow> del1 seq \<noteq> []"
  by (simp add: del1_def)

lemma del2_nonempty: "2 \<le> length seq \<Longrightarrow> del2 seq \<noteq> []"
proof -
  assume "2 \<le> length seq"
  then have "0 < length seq choose 2"
    by (simp add: zero_less_binomial)
  then have "combinations [0..<length seq] 2 \<noteq> []"
    using length_combinations [of "[0..<length seq]" 2] by auto
  then show ?thesis
    by (simp add: del2_def)
qed

lemma finish_sequence_returns:
  assumes "\<not> ((mut_type = ''del1'' \<or> mut_type = ''del2'') \<and> keep_length) \<or> core_list \<noteq> []"
  shows "\<exists>res. finish_sequence r seq primer_f primer_r mut_type keep_length side core_list
                 = Inr res"
  using assms by (cases core_list) (auto simp: finish_sequence_def Let_def)

text \<open>
  Outside the sampled mode, and outside a deletion mode with length compensation on a
  sequence too short to have a variant, \<open>process_sequence\<close> returns three lists of the same
  length, each full sequence being the uppercased forward flank, the core sequence at the
  same index and the uppercased reverse flank.
\<close>

lemma process_sequence_assembly:
  assumes "mut_type = ''single'' \<or> mut_type = ''double''
         \<or> ((mut_type = ''del1'' \<or> mut_type = ''del2'') \<and> \<not> keep_length)
         \<or> (mut_type = ''del1'' \<and> seq \<noteq> [])
         \<or> (mut_type = ''del2'' \<and> 2 \<le> length seq)"
  shows "\<exists>res. process_sequence fuel r seq primer_f primer_r mut_type keep_length side n
                 = Some (Inr res)
           \<and> length (sequences res) = length (core_only res)
           \<and> length (core_only res) = length (report res)
           \<and> sequences res = map (\<lambda>c. upper primer_f @ c @ upper primer_r) (core_only res)"
proof -
  let ?seq = "upper seq"
  let ?fin = "finish_sequence r ?seq (upper primer_f) (upper primer_r) mut_type keep_length side"
  have ne1: "del1 ?seq \<noteq> []" if "seq \<noteq> []"
    using that by (intro del1_nonempty) (simp add: upper_def)
  have ne2: "del2 ?seq \<noteq> []" if "2 \<le> length seq"
    using that by (intro del2_nonempty) (simp add: upper_def)
  from assms consider
      (single) "mut_type = ''single''" | (double) "mut_type = ''double''"
    | (del1) "mut_type = ''del1''" "\<not> keep_length \<or> seq \<noteq> []"
    | (del2) "mut_type = ''del2''" "\<not> keep_length \<or> 2 \<le> length seq"
    by auto
  then have "\<exists>res. process_sequence fuel r seq primer_f primer_r mut_type keep_length side n
                    = Some (Inr res)"
  proof cases
    case single
    with finish_sequence_returns [of mut_type keep_length "single_mutations ?seq" r ?seq]
    show ?thesis by (simp add: process_sequence_def Let_def)
  next
    case double
    with finish_sequence_returns [of mut_type keep_length "double_mutations ?seq" r ?seq]
    show ?thesis by (simp add: process_sequence_def Let_def)
  next
    case del1
    with ne1 finish_sequence_returns [of mut_type keep_length "del1 ?seq" r ?seq]
    show ?thesis by (auto simp: process_sequence_def Let_def)
  next
    case del2
    with ne2 finish_sequence_returns [of mut_type keep_length "del2 ?seq" r ?seq]
    show ?thesis by (auto simp: process_sequence_def Let_def)
  qed
  then obtain res where
    ps: "process_sequence fuel r seq primer_f primer_r mut_type keep_length side n
           = Some (Inr res)"
    by blast
  from process_sequence_fields [OF ps] ps show ?thesis
    by (simp add: length_labels)
qed

text \<open>
  The button block, for a sequence that is not empty: three lists of the same length,
  each full sequence being the forward flank as entered, the core sequence at the same
  index and the reverse flank as entered.
\<close>

lemma run_assembly:
  assumes "upper (filter (\<lambda>c. c \<noteq> CHR 0x0A) entered) \<noteq> []"
  shows "\<exists>res. run r entered primer_f primer_r mut_type count sample_size side = Some (Inr res)
           \<and> length (sequences res) = length (core_only res)
           \<and> length (core_only res) = length (report res)
           \<and> sequences res = map (\<lambda>c. primer_f @ c @ primer_r) (core_only res)"
proof -
  obtain res where
    run: "run r entered primer_f primer_r mut_type count sample_size side = Some (Inr res)"
    using run_eq [OF refl assms refl refl] by blast
  from run_fields [OF run] run show ?thesis
    by (simp add: length_labels)
qed

text \<open>
  C1. In the mode \<open>del2\<close> with length compensation (the default) on a sequence of one
  symbol, and in the mode \<open>del1\<close> on the empty sequence, there is no variant and
  \<open>process_sequence\<close> raises \<open>IndexError\<close> where it reads \<open>core_list[0]\<close>, instead of returning
  three lists. Without length compensation it returns three empty lists on the same input.
\<close>

theorem assembly_index_error:
  "process_sequence 0 zero_source ''A'' ''X'' ''Y'' ''del2'' True ''5'' 44424
     = Some (Inl IndexError)
   \<and> process_sequence 0 zero_source ''A'' ''X'' ''Y'' ''del2'' False ''5'' 44424
     = Some (Inr \<lparr>sequences = [], core_only = [], report = []\<rparr>)
   \<and> process_sequence 0 zero_source [] ''X'' ''Y'' ''del1'' True ''5'' 44424
     = Some (Inl IndexError)
   \<and> process_sequence 0 zero_source [] ''X'' ''Y'' ''del1'' False ''5'' 44424
     = Some (Inr \<lparr>sequences = [], core_only = [], report = []\<rparr>)"
  by code_simp

section \<open>One pass of the sampling loop\<close>

lemma shift_shift: "shift k (shift m r) = shift (k + m) r"
  by (simp add: shift_def fun_eq_iff add.assoc)

lemma others_nonempty: "others c \<noteq> []"
  using others_length_ge [of c] by auto

lemma assign_random_eq:
  "assign_random r seq new_seq ps
     = Inr (substitute new_seq ps (picks r seq ps), shift (length ps) r)"
proof (induction ps arbitrary: r new_seq)
  case Nil
  show ?case by (simp add: substitute_def shift_def)
next
  case (Cons p ps)
  have "choice r (filter (\<lambda>b. b \<noteq> seq ! p) BASES)
          = Inr (others (seq ! p) ! (r 0 mod length (others (seq ! p))), shift 1 r)"
    using others_nonempty [of "seq ! p"] by (simp add: choice_def others_def)
  then show ?case
    by (simp add: Cons.IH substitute_Cons shift_shift)
qed




lemma triple_draw_eq:
  assumes "3 \<le> length seq"
  shows "triple_draw r seq
           = Inr (substitute seq (sort (fst (sample_pool r [0..<length seq] 3)))
                    (picks (shift 3 r) seq (sort (fst (sample_pool r [0..<length seq] 3)))),
                  shift 6 r)"
proof -
  let ?ps = "fst (sample_pool r [0..<length seq] 3)"
  have "sample r [0..<length seq] 3 = Inr (?ps, shift 3 r)"
    using assms sample_pool_source [of r "[0..<length seq]" 3]
    by (simp add: sample_def prod_eq_iff)
  moreover have "length (sort ?ps) = 3"
    by (simp add: sample_pool_length)
  ultimately show ?thesis
    by (simp add: triple_draw_def assign_random_eq shift_shift)
qed



section \<open>What one pass can produce\<close>







section \<open>The sampling loop\<close>



lemma triple_loop_step:
  "int (length seen) < n \<Longrightarrow> triple_draw r seq = Inr (v, r')
     \<Longrightarrow> triple_loop (Suc fuel) r seq n seen = triple_loop fuel r' seq n (od_store v seen)"
  by simp








section \<open>Concrete sources\<close>






text \<open>On the source whose draws are all 0 the loop stores the same string in every pass.\<close>

lemma shift_zero_source: "shift k zero_source = zero_source"
  by (simp add: shift_def zero_source_def)

lemma zero_source_draw: "triple_draw zero_source ''ATGC'' = Inr (''TTAA'', zero_source)"
proof -
  have "substitute ''ATGC'' (sort (fst (sample_pool zero_source [0..<length ''ATGC''] 3)))
          (picks (shift 3 zero_source) ''ATGC''
             (sort (fst (sample_pool zero_source [0..<length ''ATGC''] 3)))) = ''TTAA''"
    by code_simp
  with triple_draw_eq [of "''ATGC''" zero_source] show ?thesis
    by (simp add: shift_zero_source)
qed

lemma zero_source_stuck: "triple_loop fuel zero_source ''ATGC'' 2 [''TTAA''] = None"
  by (induction fuel) (simp_all add: zero_source_draw od_store_def)

lemma zero_source_never_returns: "triple_mutations_sampled fuel zero_source ''ATGC'' 2 = None"
proof -
  have "min 2 (int (length (combinations [0..<length ''ATGC''] 3)) * 3 ^ 3) = 2"
    by code_simp
  moreover have "triple_loop fuel zero_source ''ATGC'' 2 [] = None"
    by (cases fuel) (simp_all add: zero_source_draw od_store_def zero_source_stuck)
  ultimately show ?thesis
    by (simp add: triple_mutations_sampled_def)
qed

section \<open>The sampled triple-substitution generator\<close>











end
